theory Spec2Isabelle
  imports Complex_Main "HOL-Library.Multiset"
begin

section \<open>Python floats and the learned preference store (class QTable of logic.py)\<close>

text \<open>
  A Python float is an IEEE 754 binary64 number. It is modelled by the real number it
  denotes, and every float operation returns the exact result rounded to the nearest
  binary64 number, ties to the even significand: \<open>fl\<close>. The spacing of the binary64 numbers
  around \<open>x\<close> is \<open>pow2 (ulp_exponent x)\<close>: 52 binary places below the leading bit of \<open>x\<close>,
  and never below the subnormal spacing \<open>2^-1074\<close>. Results of magnitude
  \<open>2^1024\<close> or more, which Python turns into an infinity, and NaN are outside the model.
\<close>

definition round_even :: "real \<Rightarrow> int" where
  "round_even y =
     (let n = \<lfloor>y\<rfloor>; f = y - of_int n
      in if f < 1 / 2 then n else if 1 / 2 < f then n + 1 else if even n then n else n + 1)"

definition pow2 :: "int \<Rightarrow> real" where
  "pow2 e = (if 0 \<le> e then 2 ^ nat e else 1 / 2 ^ nat (- e))"

definition ulp_exponent :: "real \<Rightarrow> int" where
  "ulp_exponent x = max \<lfloor>log 2 \<bar>x\<bar>\<rfloor> (- 1022) - 52"

definition fl :: "real \<Rightarrow> real" where
  "fl x = (if x = 0 then 0
           else of_int (round_even (x / pow2 (ulp_exponent x))) * pow2 (ulp_exponent x))"

text \<open>
  The table is a Python dict from position identity (a FEN string) to a dict from move
  identity (a UCI string) to a float. Both levels are partial maps.
\<close>

type_synonym qrow = "string \<rightharpoonup> real"
type_synonym qtable = "string \<rightharpoonup> qrow"

text \<open>The float literal \<^verbatim>\<open>0.1\<close>.\<close>

definition LEARNING_RATE :: real where
  "LEARNING_RATE = fl (1 / 10)"

text \<open>\<^verbatim>\<open>self.q.get(fen, {}).get(move, 0)\<close>\<close>

definition get_q :: "qtable \<Rightarrow> string \<Rightarrow> string \<Rightarrow> real" where
  "get_q q fen move =
     (case (case q fen of None \<Rightarrow> Map.empty | Some row \<Rightarrow> row) move of
        None \<Rightarrow> 0
      | Some v \<Rightarrow> v)"

text \<open>The raw entry of the nested dict: \<open>None\<close> when the row or the move is not set.\<close>

definition lookup :: "qtable \<Rightarrow> string \<Rightarrow> string \<Rightarrow> real option" where
  "lookup q fen move = (case q fen of None \<Rightarrow> None | Some row \<Rightarrow> row move)"

text \<open>
  \<^verbatim>\<open>update(self, fen, move, reward, alpha)\<close>: a missing row is created empty first, the old
  value of a missing move is 0.0, and the entry is overwritten in place with the float
  value of \<^verbatim>\<open>old_q + alpha * (reward - old_q)\<close>, three rounded operations. The mutated
  dict is returned as the new table.
\<close>

definition update :: "qtable \<Rightarrow> string \<Rightarrow> string \<Rightarrow> real \<Rightarrow> real \<Rightarrow> qtable" where
  "update q fen move reward alpha =
     (let q1 = (if fen \<notin> dom q then q(fen \<mapsto> Map.empty) else q);
          row = (case q1 fen of None \<Rightarrow> Map.empty | Some r \<Rightarrow> r);
          old_q = (case row move of None \<Rightarrow> 0 | Some v \<Rightarrow> v)
      in q1(fen \<mapsto> row(move \<mapsto> fl (old_q + fl (alpha * fl (reward - old_q))))))"





section \<open>Search values\<close>

text \<open>
  A search value is a Python int (what \<^verbatim>\<open>evaluate_board\<close> returns) or one of the floats
  \<^verbatim>\<open>-float('inf')\<close> and \<^verbatim>\<open>float('inf')\<close>; Python compares them exactly.
\<close>

datatype score = NegInf | Fin int | PosInf

instantiation score :: linorder
begin

fun less_eq_score :: "score \<Rightarrow> score \<Rightarrow> bool" where
  "less_eq_score NegInf y = True"
| "less_eq_score (Fin a) NegInf = False"
| "less_eq_score (Fin a) (Fin b) = (a \<le> b)"
| "less_eq_score (Fin a) PosInf = True"
| "less_eq_score PosInf NegInf = False"
| "less_eq_score PosInf (Fin b) = False"
| "less_eq_score PosInf PosInf = True"

definition less_score :: "score \<Rightarrow> score \<Rightarrow> bool" where
  "less_score x y = (x \<le> y \<and> \<not> y \<le> x)"

instance
proof
  fix x y z :: score
  show "(x < y) = (x \<le> y \<and> \<not> y \<le> x)" by (simp add: less_score_def)
  show "x \<le> x" by (cases x) simp_all
  show "x \<le> y \<Longrightarrow> y \<le> z \<Longrightarrow> x \<le> z" by (cases x; cases y; cases z) simp_all
  show "x \<le> y \<Longrightarrow> y \<le> x \<Longrightarrow> x = y" by (cases x; cases y) simp_all
  show "x \<le> y \<or> y \<le> x" by (cases x; cases y) auto
qed

end

section \<open>The rules engine (the python-chess board, taken as a parameter)\<close>

text \<open>
  The board object and its moves belong to the python-chess library. The engine record holds
  the operations the program calls on them. A board of type \<open>'b\<close> is the whole mutable object
  (position and move stack); \<^verbatim>\<open>board.push(move)\<close> and \<^verbatim>\<open>board.pop()\<close> return the mutated
  board. Colours are booleans as in python-chess.
\<close>

datatype piece_type = PAWN | KNIGHT | BISHOP | ROOK | QUEEN | KING

definition WHITE :: bool where "WHITE = True"
definition BLACK :: bool where "BLACK = False"

record piece =
  ptype :: piece_type
  color :: bool

record ('b, 'm) engine =
  legal_moves :: "'b \<Rightarrow> 'm list"
  push :: "'b \<Rightarrow> 'm \<Rightarrow> 'b"
  pop :: "'b \<Rightarrow> 'b"
  is_checkmate :: "'b \<Rightarrow> bool"
  is_stalemate :: "'b \<Rightarrow> bool"
  is_insufficient_material :: "'b \<Rightarrow> bool"
  is_game_over :: "'b \<Rightarrow> bool"
  turn :: "'b \<Rightarrow> bool"
  fen :: "'b \<Rightarrow> string"
  pieces :: "'b \<Rightarrow> piece_type \<Rightarrow> bool \<Rightarrow> nat set"
  piece_at :: "'b \<Rightarrow> nat \<Rightarrow> piece option"
  uci :: "'m \<Rightarrow> string"
  move_bool :: "'m \<Rightarrow> bool"

text \<open>
  The contract of \<^verbatim>\<open>push\<close>/\<^verbatim>\<open>pop\<close>: undoing the last move gives back the board as it was.
\<close>

definition unmake_ok :: "('b, 'm) engine \<Rightarrow> bool" where
  "unmake_ok E = (\<forall>b m. pop E (push E b m) = b)"

text \<open>
  Truth value of an optional move, as in \<^verbatim>\<open>if best_move:\<close>: \<^verbatim>\<open>None\<close> is false, and a move
  is what its \<^verbatim>\<open>__bool__\<close> says (false for the null move only).
\<close>

definition truthy :: "('b, 'm) engine \<Rightarrow> 'm option \<Rightarrow> bool" where
  "truthy E mo = (case mo of None \<Rightarrow> False | Some m \<Rightarrow> move_bool E m)"

definition nonnull_moves :: "('b, 'm) engine \<Rightarrow> bool" where
  "nonnull_moves E = (\<forall>b. \<forall>m \<in> set (legal_moves E b). move_bool E m)"

section \<open>Position evaluator (ChessAI.evaluate_board)\<close>

definition piece_values :: "(piece_type \<times> int) list" where
  "piece_values =
     [(PAWN, 100), (KNIGHT, 300), (BISHOP, 350), (ROOK, 500), (QUEEN, 900), (KING, 0)]"

text \<open>The squares D4, D5, E4, E5 in python-chess numbering (A1 = 0, H8 = 63).\<close>

definition center_squares :: "nat list" where
  "center_squares = [27, 35, 28, 36]"

definition evaluate_board :: "('b, 'm) engine \<Rightarrow> 'b \<Rightarrow> int" where
  "evaluate_board E board =
     (if is_checkmate E board then (if turn E board = WHITE then - 10000 else 10000)
      else if is_stalemate E board \<or> is_insufficient_material E board then 0
      else
        let score = fold (\<lambda>(piece_type, value) score.
                       score + int (card (pieces E board piece_type WHITE)) * value
                             - int (card (pieces E board piece_type BLACK)) * value)
                     piece_values 0
        in fold (\<lambda>square score.
                   case piece_at E board square of
                     None \<Rightarrow> score
                   | Some piece \<Rightarrow> score + (if color piece = WHITE then 20 else - 20))
             center_squares score)"

datatype outcome = Win | Loss | Draw | Ongoing

definition goal_test :: "('b, 'm) engine \<Rightarrow> 'b \<Rightarrow> outcome" where
  "goal_test E board =
     (if is_checkmate E board then (if turn E board \<noteq> WHITE then Win else Loss)
      else if is_stalemate E board \<or> is_insufficient_material E board then Draw
      else Ongoing)"

section \<open>Move orderer (ChessAI.get_ordered_moves)\<close>

text \<open>
  Python's \<^verbatim>\<open>sorted(xs, key=k, reverse=True)\<close>: the list is reversed, sorted by a stable
  ascending sort, and reversed again.
\<close>

definition sorted_reverse :: "('a \<Rightarrow> real) \<Rightarrow> 'a list \<Rightarrow> 'a list" where
  "sorted_reverse k xs = rev (sort_key k (rev xs))"

definition get_ordered_moves :: "('b, 'm) engine \<Rightarrow> qtable \<Rightarrow> 'b \<Rightarrow> 'm list" where
  "get_ordered_moves E q board =
     (let moves = legal_moves E board;
          fen = fen E board
      in sorted_reverse (\<lambda>m. get_q q fen (uci E m)) moves)"

section \<open>Adversarial search (ChessAI.alpha_beta)\<close>

text \<open>
  The two \<^verbatim>\<open>for move in moves\<close> loops, with the recursive call as the parameter \<open>rec\<close>. Each
  returns the value and the board as the loop leaves it; \<^verbatim>\<open>break\<close> is the early return.
\<close>

fun max_loop :: "('b, 'm) engine \<Rightarrow> ('b \<Rightarrow> score \<Rightarrow> score \<Rightarrow> score \<times> 'b) \<Rightarrow> 'm list
    \<Rightarrow> 'b \<Rightarrow> score \<Rightarrow> score \<Rightarrow> score \<Rightarrow> score \<times> 'b" where
  "max_loop E rec [] board val alpha beta = (val, board)"
| "max_loop E rec (move # moves) board val alpha beta =
     (let b1 = push E board move;
          (v, b2) = rec b1 alpha beta;
          val' = max val v;
          b3 = pop E b2;
          alpha' = max alpha val'
      in if alpha' \<ge> beta then (val', b3)
         else max_loop E rec moves b3 val' alpha' beta)"

fun min_loop :: "('b, 'm) engine \<Rightarrow> ('b \<Rightarrow> score \<Rightarrow> score \<Rightarrow> score \<times> 'b) \<Rightarrow> 'm list
    \<Rightarrow> 'b \<Rightarrow> score \<Rightarrow> score \<Rightarrow> score \<Rightarrow> score \<times> 'b" where
  "min_loop E rec [] board val alpha beta = (val, board)"
| "min_loop E rec (move # moves) board val alpha beta =
     (let b1 = push E board move;
          (v, b2) = rec b1 alpha beta;
          val' = min val v;
          b3 = pop E b2;
          beta' = min beta val'
      in if alpha \<ge> beta' then (val', b3)
         else min_loop E rec moves b3 val' alpha beta')"

fun alpha_beta :: "('b, 'm) engine \<Rightarrow> qtable \<Rightarrow> 'b \<Rightarrow> nat \<Rightarrow> score \<Rightarrow> score \<Rightarrow> bool
    \<Rightarrow> score \<times> 'b" where
  "alpha_beta E q board 0 alpha beta maximizing = (Fin (evaluate_board E board), board)"
| "alpha_beta E q board (Suc d) alpha beta maximizing =
     (if is_game_over E board then (Fin (evaluate_board E board), board)
      else
        let moves = get_ordered_moves E q board
        in if moves = [] then (Fin (evaluate_board E board), board)
           else if maximizing then
             max_loop E (\<lambda>b a c. alpha_beta E q b d a c False) moves board NegInf alpha beta
           else
             min_loop E (\<lambda>b a c. alpha_beta E q b d a c True) moves board PosInf alpha beta)"

text \<open>
  The unpruned depth-limited minimax of the specification: the same base cases, and the
  maximum (minimum) of the children's values over all legal moves.
\<close>

fun minimax :: "('b, 'm) engine \<Rightarrow> 'b \<Rightarrow> nat \<Rightarrow> bool \<Rightarrow> score" where
  "minimax E board 0 maximizing = Fin (evaluate_board E board)"
| "minimax E board (Suc d) maximizing =
     (if is_game_over E board \<or> legal_moves E board = [] then Fin (evaluate_board E board)
      else if maximizing then
        fold max (map (\<lambda>m. minimax E (push E board m) d False) (legal_moves E board)) NegInf
      else
        fold min (map (\<lambda>m. minimax E (push E board m) d True) (legal_moves E board)) PosInf)"

section \<open>Iterative-deepening driver (ChessAI.iterative_deepening)\<close>

text \<open>
  The configuration of a \<^verbatim>\<open>ChessAI\<close> object. The wall clock is an input: \<open>elapsed d\<close> is the
  value of \<^verbatim>\<open>time.time() - start_time\<close> read at the top of the iteration for depth \<open>d\<close>.
\<close>

record config =
  max_depth :: nat
  time_limit :: real

type_synonym 'b search = "'b \<Rightarrow> nat \<Rightarrow> score \<Rightarrow> score \<Rightarrow> bool \<Rightarrow> score \<times> 'b"
type_synonym search_row = "string \<rightharpoonup> score"
type_synonym search_tree = "nat \<rightharpoonup> search_row"

text \<open>
  The inner loop over the root moves at one depth; \<^verbatim>\<open>beta\<close> stays \<^verbatim>\<open>float('inf')\<close>. The row
  of the score table is built here and stored under its depth by the outer loop.
\<close>

fun root_loop :: "('b, 'm) engine \<Rightarrow> 'b search \<Rightarrow> nat \<Rightarrow> 'm list \<Rightarrow> 'b \<Rightarrow> search_row
    \<Rightarrow> 'm option \<Rightarrow> score \<Rightarrow> score \<Rightarrow> 'b \<times> search_row \<times> 'm option \<times> score" where
  "root_loop E search depth [] board row current_best current_value alpha =
     (board, row, current_best, current_value)"
| "root_loop E search depth (move # moves) board row current_best current_value alpha =
     (let b1 = push E board move;
          (val, b2) = search b1 (depth - 1) alpha PosInf False;
          b3 = pop E b2;
          row' = row(uci E move \<mapsto> val);
          (current_value', current_best') =
             (if val > current_value then (val, Some move) else (current_value, current_best));
          alpha' = max alpha val
      in root_loop E search depth moves b3 row' current_best' current_value' alpha')"

text \<open>The outer loop \<^verbatim>\<open>for depth in range(1, self.max_depth + 1)\<close> over the remaining depths.\<close>

fun depth_loop :: "('b, 'm) engine \<Rightarrow> 'b search \<Rightarrow> config \<Rightarrow> (nat \<Rightarrow> real) \<Rightarrow> 'm list
    \<Rightarrow> nat list \<Rightarrow> 'b \<Rightarrow> 'm option \<Rightarrow> score \<Rightarrow> search_tree
    \<Rightarrow> 'm option \<times> score \<times> search_tree \<times> 'b" where
  "depth_loop E search cfg elapsed legal [] board best_move best_value tree =
     (best_move, best_value, tree, board)"
| "depth_loop E search cfg elapsed legal (depth # depths) board best_move best_value tree =
     (if elapsed depth > time_limit cfg then (best_move, best_value, tree, board)
      else
        let (board', row, current_best, current_value) =
              root_loop E search depth legal board Map.empty best_move NegInf NegInf;
            tree' = tree(depth \<mapsto> row)
        in if truthy E current_best
           then depth_loop E search cfg elapsed legal depths board' current_best current_value tree'
           else depth_loop E search cfg elapsed legal depths board' best_move best_value tree')"

text \<open>
  The driver with the search routine it calls as a parameter; the result is the returned
  pair and the board as the call leaves it.
\<close>

definition iterative_deepening_with :: "'b search \<Rightarrow> ('b, 'm) engine \<Rightarrow> config \<Rightarrow> (nat \<Rightarrow> real)
    \<Rightarrow> qtable \<Rightarrow> 'b \<Rightarrow> 'm option \<times> search_tree option \<times> 'b" where
  "iterative_deepening_with search E cfg elapsed q board =
     (let legal = get_ordered_moves E q board
      in if legal = [] then (None, None, board)
         else
           let (best_move, best_value, tree, board') =
                 depth_loop E search cfg elapsed legal [1 ..< Suc (max_depth cfg)] board
                   None NegInf Map.empty
           in (best_move, Some tree, board'))"

definition iterative_deepening :: "('b, 'm) engine \<Rightarrow> config \<Rightarrow> (nat \<Rightarrow> real)
    \<Rightarrow> qtable \<Rightarrow> 'b \<Rightarrow> 'm option \<times> search_tree option \<times> 'b" where
  "iterative_deepening E cfg elapsed q board =
     iterative_deepening_with (alpha_beta E q) E cfg elapsed q board"

section \<open>Decision coordinator (ChessAI.compute_best_move)\<close>

text \<open>The result is the returned pair, the table and the board after the call.\<close>

definition compute_best_move_with :: "'b search \<Rightarrow> ('b, 'm) engine \<Rightarrow> config \<Rightarrow> (nat \<Rightarrow> real)
    \<Rightarrow> qtable \<Rightarrow> 'b \<Rightarrow> 'm option \<times> search_tree option \<times> qtable \<times> 'b" where
  "compute_best_move_with search E cfg elapsed q board =
     (let fen0 = fen E board;
          prev_score = evaluate_board E board;
          (best_move, tree, b1) = iterative_deepening_with search E cfg elapsed q board
      in case best_move of
           None \<Rightarrow> (best_move, tree, q, b1)
         | Some move \<Rightarrow>
             if move_bool E move then
               let b2 = push E b1 move;
                   new_score = evaluate_board E b2;
                   reward = fl (real_of_int (new_score - prev_score) / 100);
                   q' = update q fen0 (uci E move) reward LEARNING_RATE;
                   b3 = pop E b2
               in (best_move, tree, q', b3)
             else (best_move, tree, q, b1))"

definition compute_best_move :: "('b, 'm) engine \<Rightarrow> config \<Rightarrow> (nat \<Rightarrow> real)
    \<Rightarrow> qtable \<Rightarrow> 'b \<Rightarrow> 'm option \<times> search_tree option \<times> qtable \<times> 'b" where
  "compute_best_move E cfg elapsed q board =
     compute_best_move_with (alpha_beta E q) E cfg elapsed q board"

section \<open>The game loop's bookkeeping (main of gui.py)\<close>

text \<open>
  Playing a move, by the human or by an agent: \<^verbatim>\<open>board.push(move)\<close>, then
  \<^verbatim>\<open>move_history.append((board.fen(), move.uci()))\<close> into the one history list of the game.
\<close>

definition play_move :: "('b, 'm) engine \<Rightarrow> 'b \<times> (string \<times> string) list \<Rightarrow> 'm
    \<Rightarrow> 'b \<times> (string \<times> string) list" where
  "play_move E st move =
     (let board = push E (fst st) move
      in (board, snd st @ [(fen E board, uci E move)]))"

text \<open>
  The loop \<^verbatim>\<open>for fen, move in move_history\<close> of the game-over block; \<open>qtable2\<close> is \<open>None\<close>
  outside self-play.
\<close>

fun reward_loop :: "(string \<times> string) list \<Rightarrow> real \<Rightarrow> qtable \<Rightarrow> qtable option
    \<Rightarrow> qtable \<times> qtable option" where
  "reward_loop [] reward qtable1 qtable2 = (qtable1, qtable2)"
| "reward_loop ((f, move) # rest) reward qtable1 qtable2 =
     reward_loop rest reward
       (update qtable1 f move reward LEARNING_RATE)
       (case qtable2 of
          None \<Rightarrow> None
        | Some q2 \<Rightarrow> Some (update q2 f move (- reward) LEARNING_RATE))"

definition terminal_reward :: "outcome \<Rightarrow> real" where
  "terminal_reward result = (if result = Win then 1 else if result = Loss then - 1 else 0)"

text \<open>
  The block \<^verbatim>\<open>if board.is_game_over():\<close>: the two tables afterwards and the cleared history,
  or \<open>None\<close> when the block does not run. Saving the tables and resetting the board are not
  modelled.
\<close>

definition game_over_block :: "('b, 'm) engine \<Rightarrow> 'b \<Rightarrow> (string \<times> string) list \<Rightarrow> qtable
    \<Rightarrow> qtable option \<Rightarrow> (qtable \<times> qtable option \<times> (string \<times> string) list) option" where
  "game_over_block E board move_history qtable1 qtable2 =
     (if is_game_over E board then
        let result = goal_test E board;
            reward = terminal_reward result;
            (q1', q2') = reward_loop move_history reward qtable1 qtable2
        in Some (q1', q2', [])
      else None)"

section \<open>A synthetic game tree\<close>

text \<open>
  A small engine for concrete runs. A board is its move stack, last move first; White moves
  at the root. The root has the moves a, b and s; a is answered by c, and b by d or e. After
  b e White is checkmated, after s Black is stalemated; White is five pawns up after a c
  and three pawns up after b d.
\<close>

definition toy_moves :: "string list \<Rightarrow> string list" where
  "toy_moves b =
     (if b = [] then [''a'', ''b'', ''s'']
      else if b = [''a''] then [''c'']
      else if b = [''b''] then [''d'', ''e'']
      else [])"

definition toy_pawns :: "string list \<Rightarrow> nat" where
  "toy_pawns b = (if b = [''c'', ''a''] then 5 else if b = [''d'', ''b''] then 3 else 0)"

definition toy :: "(string list, string) engine" where
  "toy = \<lparr>
     legal_moves = toy_moves,
     push = (\<lambda>b m. m # b),
     pop = tl,
     is_checkmate = (\<lambda>b. b = [''e'', ''b'']),
     is_stalemate = (\<lambda>b. b = [''s'']),
     is_insufficient_material = (\<lambda>b. False),
     is_game_over = (\<lambda>b. toy_moves b = []),
     turn = (\<lambda>b. even (length b)),
     fen = concat,
     pieces = (\<lambda>b pt c. if pt = PAWN \<and> c then {0 ..< toy_pawns b} else {}),
     piece_at = (\<lambda>b sq. None),
     uci = (\<lambda>m. m),
     move_bool = (\<lambda>m. m \<noteq> ''0000'')
   \<rparr>"

definition toy_config :: config where
  "toy_config = \<lparr> max_depth = 2, time_limit = 1 \<rparr>"

section \<open>Auxiliary notions for the statements\<close>

text \<open>
  What a search with window \<open>(a, c)\<close> may return for a position of exact value \<open>t\<close>: the exact
  value when the result lies strictly inside the window, an upper bound of it when the
  result is at most \<open>a\<close>, a lower bound of it when the result is at least \<open>c\<close>.
\<close>

definition bounds_ok :: "score \<Rightarrow> score \<Rightarrow> score \<Rightarrow> score \<Rightarrow> bool" where
  "bounds_ok a c t v =
     ((v \<le> a \<longrightarrow> t \<le> v) \<and> (a < v \<and> v < c \<longrightarrow> v = t) \<and> (c \<le> v \<longrightarrow> v \<le> t))"

text \<open>
  The values the driver computes for the root moves at one depth, in order: each is the
  search's result for the position after the move, for the window from the largest earlier
  value (initially \<open>alpha\<close>) to \<^verbatim>\<open>float('inf')\<close>.
\<close>

fun root_values :: "('b, 'm) engine \<Rightarrow> 'b search \<Rightarrow> nat \<Rightarrow> 'm list \<Rightarrow> 'b \<Rightarrow> score
    \<Rightarrow> score list" where
  "root_values E search depth [] board alpha = []"
| "root_values E search depth (move # moves) board alpha =
     (let val = fst (search (push E board move) (depth - 1) alpha PosInf False)
      in val # root_values E search depth moves board (max alpha val))"

text \<open>
  The number of depths the driver completes: the depths from 1 on, up to the maximum,
  before the first one at whose start the elapsed time exceeds the budget.
\<close>

definition completed_depths :: "config \<Rightarrow> (nat \<Rightarrow> real) \<Rightarrow> nat" where
  "completed_depths cfg elapsed =
     length (takeWhile (\<lambda>d. \<not> elapsed d > time_limit cfg) [1 ..< Suc (max_depth cfg)])"

text \<open>The entry \<^verbatim>\<open>search_tree[depth][uci]\<close> of a returned score table, if there is one.\<close>

definition recorded :: "search_tree option \<Rightarrow> nat \<Rightarrow> string \<Rightarrow> score option" where
  "recorded tree depth u =
     (case tree of
        None \<Rightarrow> None
      | Some t \<Rightarrow> (case t depth of None \<Rightarrow> None | Some row \<Rightarrow> row u))"

text \<open>A clock that never leaves the time budget of \<open>toy_config\<close>.\<close>

definition toy_clock :: "nat \<Rightarrow> real" where
  "toy_clock d = 0"

section \<open>Rounding to binary64\<close>

lemma pow2_powr: "pow2 e = 2 powr (real_of_int e)"
  by (simp add: pow2_def powr_int)

lemma pow2_pos [simp]: "0 < pow2 e"
  by (simp add: pow2_powr)

lemma pow2_nonzero [simp]: "pow2 e \<noteq> 0"
  using pow2_pos [of e] by linarith


lemma pow2_add: "pow2 (a + b) = pow2 a * pow2 b"
  by (simp add: pow2_powr powr_add)



lemma exponent_eq:
  assumes "pow2 e \<le> \<bar>x\<bar>" "\<bar>x\<bar> < pow2 (e + 1)"
  shows "\<lfloor>log 2 \<bar>x\<bar>\<rfloor> = e"
proof -
  have pos: "0 < \<bar>x\<bar>" using assms(1) pow2_pos [of e] by linarith
  have "real_of_int e \<le> log 2 \<bar>x\<bar>"
    using assms(1) pos by (simp add: pow2_powr le_log_iff)
  moreover have "log 2 \<bar>x\<bar> < real_of_int e + 1"
    using assms(2) pos by (simp add: pow2_powr log_less_iff)
  ultimately show ?thesis by (simp add: floor_eq_iff)
qed


lemma round_even_int [simp]: "round_even (of_int n) = n"
  by (simp add: round_even_def)

lemma round_even_numeral [simp]: "round_even (numeral k) = numeral k"
  using round_even_int [of "numeral k"] by simp






lemma ulp_exponent_normal:
  assumes "pow2 (u + 52) \<le> \<bar>y\<bar>" "\<bar>y\<bar> < pow2 (u + 53)" "- 1022 \<le> u + 52"
  shows "ulp_exponent y = u"
proof -
  have "\<bar>y\<bar> < pow2 (u + 52 + 1)" using assms(2) by (simp add: add.assoc)
  from exponent_eq [OF assms(1) this] assms(3) show ?thesis
    by (simp add: ulp_exponent_def)
qed


lemma fl_grid:
  assumes "ulp_exponent (of_int k * pow2 u) = u"
  shows "fl (of_int k * pow2 u) = of_int k * pow2 u"
  using assms by (simp add: fl_def)

lemma pow2_nums:
  "pow2 (numeral k) = 2 ^ numeral k" "pow2 (- numeral k) = 1 / 2 ^ numeral k"
  "pow2 0 = 1" "pow2 1 = 2"
  by (simp_all add: pow2_def)

lemma pow2_shift: "pow2 (u + numeral k) = 2 ^ numeral k * pow2 u"
  by (simp add: pow2_add pow2_nums)


lemma abs_grid: "\<bar>of_int k * pow2 u\<bar> = of_int \<bar>k\<bar> * pow2 u"
  by (simp add: abs_mult abs_of_pos)

lemma fl_grid_normal:
  assumes "2 ^ 52 \<le> \<bar>k\<bar>" "\<bar>k\<bar> < 2 ^ 53" "- 1022 \<le> u + 52"
  shows "fl (of_int k * pow2 u) = of_int k * pow2 u"
proof -
  have a: "real_of_int \<bar>k\<bar> < 2 ^ 53"
    using assms(2) by (metis of_int_less_iff of_int_numeral of_int_power)
  have b: "2 ^ 52 \<le> real_of_int \<bar>k\<bar>"
    using assms(1) by (metis of_int_le_iff of_int_numeral of_int_power)
  have "pow2 (u + 52) = 2 ^ 52 * pow2 u" by (rule pow2_shift)
  also have "\<dots> \<le> of_int \<bar>k\<bar> * pow2 u" using b by (simp add: mult_right_mono)
  finally have lo: "pow2 (u + 52) \<le> \<bar>of_int k * pow2 u\<bar>" by (simp only: abs_grid)
  have "of_int \<bar>k\<bar> * pow2 u < 2 ^ 53 * pow2 u" using a by (simp add: mult_strict_right_mono)
  also have "\<dots> = pow2 (u + 53)" by (rule pow2_shift [symmetric])
  finally have hi: "\<bar>of_int k * pow2 u\<bar> < pow2 (u + 53)" by (simp only: abs_grid)
  from ulp_exponent_normal [OF lo hi assms(3)] show ?thesis by (rule fl_grid)
qed



lemma fl_pow2: "- 1022 \<le> e \<Longrightarrow> fl (pow2 e) = pow2 e"
proof -
  assume e: "- 1022 \<le> e"
  have "fl (of_int (2 ^ 52) * pow2 (e - 52)) = of_int (2 ^ 52) * pow2 (e - 52)"
    by (rule fl_grid_normal) (use e in simp_all)
  moreover have "of_int (2 ^ 52) * pow2 (e - 52) = pow2 e"
    using pow2_shift [of "e - 52" "num.Bit0 (num.Bit0 (num.Bit1 (num.Bit0 (num.Bit1 num.One))))"]
    by simp
  ultimately show ?thesis by simp
qed


lemma fl_sixty: "fl (1 / 2 ^ 60) = 1 / 2 ^ 60"
  using fl_pow2 [of "- 60"] by (simp add: pow2_nums)


section \<open>Properties of the table update\<close>

lemma get_q_lookup:
  "get_q q f m = (case lookup q f m of None \<Rightarrow> 0 | Some v \<Rightarrow> v)"
  by (simp add: get_q_def lookup_def split: option.splits)

lemma lookup_update_same:
  "lookup (update q fk move reward alpha) fk move =
     Some (fl (get_q q fk move + fl (alpha * fl (reward - get_q q fk move))))"
  by (auto simp: get_q_def lookup_def update_def Let_def domIff split: option.splits)

lemma lookup_update_other:
  "(f, m) \<noteq> (fk, move) \<Longrightarrow> lookup (update q fk move reward alpha) f m = lookup q f m"
  by (auto simp: lookup_def update_def Let_def domIff split: option.splits)


lemma get_q_update_other:
  "(f, m) \<noteq> (fk, move) \<Longrightarrow> get_q (update q fk move reward alpha) f m = get_q q f m"
  by (simp add: get_q_lookup lookup_update_other)

lemma dom_update: "dom (update q fk move reward alpha) = insert fk (dom q)"
  by (auto simp: update_def Let_def domIff split: option.splits if_splits)












text \<open>
  C10. An update of key \<open>(fk, move)\<close> leaves every other entry of the table as it was (its
  value, and whether it is set), keeps every row, and leaves the updated entry set.
\<close>

theorem update_frame:
  "(\<forall>f m. (f, m) \<noteq> (fk, move) \<longrightarrow> lookup (update q fk move r a) f m = lookup q f m)
   \<and> dom q \<subseteq> dom (update q fk move r a)
   \<and> lookup (update q fk move r a) fk move \<noteq> None"
  using lookup_update_other [of _ _ fk move q r a]
  by (auto simp: dom_update lookup_update_same)

theorem update_frame_witness:
  "(''g'', ''e2e4'') \<noteq> (''f'', ''e2e4'')
   \<and> lookup (update [''g'' \<mapsto> [''e2e4'' \<mapsto> 3]] ''f'' ''e2e4'' 1 (1 / 10)) ''g'' ''e2e4'' = Some 3"
proof -
  have h: "(''g'', ''e2e4'') \<noteq> (''f'', ''e2e4'')" by simp
  have "lookup [''g'' \<mapsto> [''e2e4'' \<mapsto> 3::real]] ''g'' ''e2e4'' = Some 3"
    by (simp add: lookup_def)
  then show ?thesis
    using update_frame [of "''f''" "''e2e4''" "[''g'' \<mapsto> [''e2e4'' \<mapsto> 3]]" 1 "1 / 10"] h
    by auto
qed

section \<open>The synthetic engine, unfolded\<close>

lemma toy_simps:
  "legal_moves toy = toy_moves" "push toy b m = m # b" "pop toy b = tl b"
  "is_checkmate toy b = (b = [''e'', ''b''])" "is_stalemate toy b = (b = [''s''])"
  "is_insufficient_material toy b = False" "is_game_over toy b = (toy_moves b = [])"
  "turn toy b = even (length b)" "fen toy = concat"
  "pieces toy b pt c = (if pt = PAWN \<and> c then {0 ..< toy_pawns b} else {})"
  "piece_at toy b sq = None" "uci toy m = m" "move_bool toy m = (m \<noteq> ''0000'')"
  by (simp_all add: toy_def)

lemma toy_unmake_ok: "unmake_ok toy"
  by (simp add: unmake_ok_def toy_simps)

lemma toy_nonnull_moves: "nonnull_moves toy"
  by (auto simp: nonnull_moves_def toy_simps toy_moves_def)

section \<open>Properties of the evaluator\<close>

text \<open>
  C4. On a checkmate the evaluator returns \<open>-10000\<close> when White is to move and \<open>10000\<close> when
  Black is to move, a score of magnitude 10000 against the side to move; on a stalemate or
  a position with insufficient material that is not a checkmate it returns 0.
\<close>

theorem evaluate_terminal:
  "(is_checkmate E b \<longrightarrow>
      evaluate_board E b = (if turn E b = WHITE then - 10000 else 10000)
      \<and> \<bar>evaluate_board E b\<bar> = 10000)
   \<and> (\<not> is_checkmate E b \<and> (is_stalemate E b \<or> is_insufficient_material E b) \<longrightarrow>
      evaluate_board E b = 0)"
  by (simp add: evaluate_board_def)

theorem evaluate_terminal_witness:
  "is_checkmate toy [''e'', ''b''] \<and> turn toy [''e'', ''b''] = WHITE
   \<and> evaluate_board toy [''e'', ''b''] = - 10000
   \<and> \<not> is_checkmate toy [''s''] \<and> is_stalemate toy [''s'']
   \<and> evaluate_board toy [''s''] = 0"
  using evaluate_terminal [of toy "[''e'', ''b'']"] evaluate_terminal [of toy "[''s'']"]
  by (simp add: toy_simps WHITE_def)

section \<open>Properties of the move orderer\<close>

lemma sorted_reverse_mset: "mset (sorted_reverse k xs) = mset xs"
  by (simp add: sorted_reverse_def)

lemma sorted_reverse_set: "set (sorted_reverse k xs) = set xs"
  by (simp add: sorted_reverse_def)

lemma sorted_reverse_descending:
  "sorted_wrt (\<lambda>x y. k x \<ge> k y) (sorted_reverse k xs)"
proof -
  have "sorted (map k (sort_key k (rev xs)))" by simp
  then have "sorted_wrt (\<lambda>x y. k x \<le> k y) (sort_key k (rev xs))"
    by (simp add: sorted_wrt_map)
  then show ?thesis
    by (simp add: sorted_reverse_def sorted_wrt_rev)
qed

lemma sorted_reverse_stable:
  "filter (\<lambda>x. k x = v) (sorted_reverse k xs) = filter (\<lambda>x. k x = v) xs"
  by (simp add: sorted_reverse_def rev_filter [symmetric] sort_key_stable)

lemma set_get_ordered_moves: "set (get_ordered_moves E q b) = set (legal_moves E b)"
  by (simp add: get_ordered_moves_def Let_def sorted_reverse_set)

lemma get_ordered_moves_Nil: "get_ordered_moves E q b = [] \<longleftrightarrow> legal_moves E b = []"
  using set_get_ordered_moves [of E q b] by (metis set_empty)

text \<open>
  C5. The ordered moves are the legal moves (same elements, same multiplicities), in
  descending order of the table's preference for (position identity, move identity), where
  the preference is the stored value or 0 when the pair is not in the table; and for every
  preference \<open>v\<close> the moves of preference \<open>v\<close> come in the order of the engine's enumeration.
\<close>

theorem ordered_moves_stable_descending:
  "mset (get_ordered_moves E q b) = mset (legal_moves E b)
   \<and> sorted_wrt (\<lambda>x y. get_q q (fen E b) (uci E x) \<ge> get_q q (fen E b) (uci E y))
        (get_ordered_moves E q b)
   \<and> filter (\<lambda>m. get_q q (fen E b) (uci E m) = v) (get_ordered_moves E q b)
       = filter (\<lambda>m. get_q q (fen E b) (uci E m) = v) (legal_moves E b)
   \<and> get_q q (fen E b) (uci E m)
       = (case lookup q (fen E b) (uci E m) of None \<Rightarrow> 0 | Some p \<Rightarrow> p)"
  using sorted_reverse_descending [of "\<lambda>m. get_q q (fen E b) (uci E m)" "legal_moves E b"]
  by (simp add: get_ordered_moves_def Let_def sorted_reverse_mset sorted_reverse_stable
      get_q_lookup)

section \<open>Order facts for one step of a pruned loop\<close>

lemma step_max_break:
  fixes a0 c val v t T0 T :: "'a::linorder"
  assumes "(v \<le> alpha \<longrightarrow> t \<le> v) \<and> (alpha < v \<and> v < c \<longrightarrow> v = t) \<and> (c \<le> v \<longrightarrow> v \<le> t)"
    "c \<le> max alpha (max val v)" "alpha = max a0 val" "alpha < c"
    "max t T0 \<le> T"
  shows "(max val v \<le> a0 \<longrightarrow> T \<le> max val v) \<and> (a0 < max val v \<and> max val v < c \<longrightarrow> max val v = T)
     \<and> (c \<le> max val v \<longrightarrow> max val v \<le> T)"
  using assms by (auto simp: max_def split: if_splits)

lemma step_max_low:
  fixes a0 c val v t T0 :: "'a::linorder"
  assumes "(v \<le> alpha \<longrightarrow> t \<le> v) \<and> (alpha < v \<and> v < c \<longrightarrow> v = t) \<and> (c \<le> v \<longrightarrow> v \<le> t)"
    "\<not> c \<le> max alpha (max val v)" "alpha = max a0 val" "alpha < c"
    "val \<le> a0 \<longrightarrow> T0 \<le> val" "a0 < val \<longrightarrow> T0 = val"
  shows "max val v \<le> a0 \<longrightarrow> max t T0 \<le> max val v"
  using assms by (auto simp: max_def split: if_splits)

lemma step_max_mid:
  fixes a0 c val v t T0 :: "'a::linorder"
  assumes "(v \<le> alpha \<longrightarrow> t \<le> v) \<and> (alpha < v \<and> v < c \<longrightarrow> v = t) \<and> (c \<le> v \<longrightarrow> v \<le> t)"
    "\<not> c \<le> max alpha (max val v)" "alpha = max a0 val" "alpha < c"
    "val \<le> a0 \<longrightarrow> T0 \<le> val" "a0 < val \<longrightarrow> T0 = val"
  shows "a0 < max val v \<longrightarrow> max t T0 = max val v"
  using assms by (auto simp: max_def split: if_splits)

lemma step_min_break:
  fixes a c0 val v t T0 T :: "'a::linorder"
  assumes "(v \<le> a \<longrightarrow> t \<le> v) \<and> (a < v \<and> v < beta \<longrightarrow> v = t) \<and> (beta \<le> v \<longrightarrow> v \<le> t)"
    "min beta (min val v) \<le> a" "beta = min c0 val" "a < beta"
    "T \<le> min t T0"
  shows "(min val v \<le> a \<longrightarrow> T \<le> min val v) \<and> (a < min val v \<and> min val v < c0 \<longrightarrow> min val v = T)
     \<and> (c0 \<le> min val v \<longrightarrow> min val v \<le> T)"
  using assms by (auto simp: min_def split: if_splits)

lemma step_min_high:
  fixes a c0 val v t T0 :: "'a::linorder"
  assumes "(v \<le> a \<longrightarrow> t \<le> v) \<and> (a < v \<and> v < beta \<longrightarrow> v = t) \<and> (beta \<le> v \<longrightarrow> v \<le> t)"
    "\<not> min beta (min val v) \<le> a" "beta = min c0 val" "a < beta"
    "c0 \<le> val \<longrightarrow> val \<le> T0" "val < c0 \<longrightarrow> T0 = val"
  shows "c0 \<le> min val v \<longrightarrow> min val v \<le> min t T0"
  using assms by (auto simp: min_def split: if_splits)

lemma step_min_mid:
  fixes a c0 val v t T0 :: "'a::linorder"
  assumes "(v \<le> a \<longrightarrow> t \<le> v) \<and> (a < v \<and> v < beta \<longrightarrow> v = t) \<and> (beta \<le> v \<longrightarrow> v \<le> t)"
    "\<not> min beta (min val v) \<le> a" "beta = min c0 val" "a < beta"
    "c0 \<le> val \<longrightarrow> val \<le> T0" "val < c0 \<longrightarrow> T0 = val"
  shows "min val v < c0 \<longrightarrow> min t T0 = min val v"
  using assms by (auto simp: min_def split: if_splits)


section \<open>The search leaves the board as it found it\<close>

lemma rec_result:
  assumes "\<And>b' a' c'. snd (rec b' a' c') = b'"
  obtains v where "rec b a c = (v, b)"
  using assms [of b a c] by (cases "rec b a c") auto

lemma max_loop_board:
  assumes "unmake_ok E" and "\<And>b' a' c'. snd (rec b' a' c') = b'"
  shows "snd (max_loop E rec ms b v a c) = b"
proof (induction ms arbitrary: v a)
  case Nil
  show ?case by simp
next
  case (Cons m ms)
  obtain w where r: "rec (push E b m) a c = (w, push E b m)"
    using assms(2) by (rule rec_result)
  have p: "pop E (push E b m) = b" using assms(1) by (simp add: unmake_ok_def)
  show ?case by (simp add: Let_def r p Cons.IH)
qed

lemma min_loop_board:
  assumes "unmake_ok E" and "\<And>b' a' c'. snd (rec b' a' c') = b'"
  shows "snd (min_loop E rec ms b v a c) = b"
proof (induction ms arbitrary: v c)
  case Nil
  show ?case by simp
next
  case (Cons m ms)
  obtain w where r: "rec (push E b m) a c = (w, push E b m)"
    using assms(2) by (rule rec_result)
  have p: "pop E (push E b m) = b" using assms(1) by (simp add: unmake_ok_def)
  show ?case by (simp add: Let_def r p Cons.IH)
qed

lemma alpha_beta_board:
  assumes "unmake_ok E"
  shows "snd (alpha_beta E q b d a c mx) = b"
proof (induction d arbitrary: b a c mx)
  case 0
  show ?case by simp
next
  case (Suc d)
  show ?case
    by (simp add: Let_def max_loop_board [OF assms] min_loop_board [OF assms] Suc.IH)
qed

section \<open>The pruned search against the unpruned minimax\<close>

lemma fold_max_ge: "(s::score) \<le> fold max xs s"
  by (induction xs arbitrary: s) (auto intro: order_trans [OF max.cobounded2])

lemma fold_min_le: "fold min xs (s::score) \<le> s"
  by (induction xs arbitrary: s) (auto intro: order_trans [OF _ min.cobounded2])

lemma max_loop_bounds:
  assumes E: "unmake_ok E"
    and board: "\<And>b' a' c'. snd (rec b' a' c') = b'"
    and child: "\<And>m a' c'. m \<in> set ms \<Longrightarrow> a' < c' \<Longrightarrow>
                  bounds_ok a' c' (tv m) (fst (rec (push E b m) a' c'))"
    and inv: "alpha = max a0 val" "alpha < c" "val \<le> a0 \<longrightarrow> T0 \<le> val" "a0 < val \<longrightarrow> T0 = val"
  shows "bounds_ok a0 c (fold max (map tv ms) T0) (fst (max_loop E rec ms b val alpha c))"
  using child inv
proof (induction ms arbitrary: val alpha T0)
  case Nil
  then show ?case by (auto simp: bounds_ok_def)
next
  case (Cons m ms)
  obtain v where r: "rec (push E b m) alpha c = (v, push E b m)"
    using board by (rule rec_result)
  have p: "pop E (push E b m) = b" using E by (simp add: unmake_ok_def)
  have "bounds_ok alpha c (tv m) (fst (rec (push E b m) alpha c))"
    using Cons.prems(1) [of m alpha c] Cons.prems(3) by simp
  then have cb: "(v \<le> alpha \<longrightarrow> tv m \<le> v) \<and> (alpha < v \<and> v < c \<longrightarrow> v = tv m)
      \<and> (c \<le> v \<longrightarrow> v \<le> tv m)"
    by (simp add: r bounds_ok_def)
  show ?case
  proof (cases "c \<le> max alpha (max val v)")
    case True
    have ge: "max (tv m) T0 \<le> fold max (map tv ms) (max (tv m) T0)" by (rule fold_max_ge)
    have "fst (max_loop E rec (m # ms) b val alpha c) = max val v"
      using True by (simp add: Let_def r p)
    moreover have "bounds_ok a0 c (fold max (map tv ms) (max (tv m) T0)) (max val v)"
      unfolding bounds_ok_def
      by (rule step_max_break [OF cb True Cons.prems(2) Cons.prems(3) ge])
    ultimately show ?thesis by simp
  next
    case False
    have eq: "fst (max_loop E rec (m # ms) b val alpha c)
        = fst (max_loop E rec ms b (max val v) (max alpha (max val v)) c)"
      using False by (simp add: Let_def r p)
    have "bounds_ok a0 c (fold max (map tv ms) (max (tv m) T0))
            (fst (max_loop E rec ms b (max val v) (max alpha (max val v)) c))"
    proof (rule Cons.IH)
      show "\<And>m' a' c'. m' \<in> set ms \<Longrightarrow> a' < c' \<Longrightarrow>
              bounds_ok a' c' (tv m') (fst (rec (push E b m') a' c'))"
        using Cons.prems(1) by simp
      show "max alpha (max val v) = max a0 (max val v)"
        using Cons.prems(2) by (simp add: max.assoc [symmetric])
      show "max alpha (max val v) < c" using False by (meson not_le)
      show "max val v \<le> a0 \<longrightarrow> max (tv m) T0 \<le> max val v"
        by (rule step_max_low [OF cb False Cons.prems(2-5)])
      show "a0 < max val v \<longrightarrow> max (tv m) T0 = max val v"
        by (rule step_max_mid [OF cb False Cons.prems(2-5)])
    qed
    then show ?thesis using eq by simp
  qed
qed

lemma min_loop_bounds:
  assumes E: "unmake_ok E"
    and board: "\<And>b' a' c'. snd (rec b' a' c') = b'"
    and child: "\<And>m a' c'. m \<in> set ms \<Longrightarrow> a' < c' \<Longrightarrow>
                  bounds_ok a' c' (tv m) (fst (rec (push E b m) a' c'))"
    and inv: "beta = min c0 val" "a < beta" "c0 \<le> val \<longrightarrow> val \<le> T0" "val < c0 \<longrightarrow> T0 = val"
  shows "bounds_ok a c0 (fold min (map tv ms) T0) (fst (min_loop E rec ms b val a beta))"
  using child inv
proof (induction ms arbitrary: val beta T0)
  case Nil
  then show ?case by (auto simp: bounds_ok_def)
next
  case (Cons m ms)
  obtain v where r: "rec (push E b m) a beta = (v, push E b m)"
    using board by (rule rec_result)
  have p: "pop E (push E b m) = b" using E by (simp add: unmake_ok_def)
  have "bounds_ok a beta (tv m) (fst (rec (push E b m) a beta))"
    using Cons.prems(1) [of m a beta] Cons.prems(3) by simp
  then have cb: "(v \<le> a \<longrightarrow> tv m \<le> v) \<and> (a < v \<and> v < beta \<longrightarrow> v = tv m)
      \<and> (beta \<le> v \<longrightarrow> v \<le> tv m)"
    by (simp add: r bounds_ok_def)
  show ?case
  proof (cases "min beta (min val v) \<le> a")
    case True
    have le: "fold min (map tv ms) (min (tv m) T0) \<le> min (tv m) T0" by (rule fold_min_le)
    have "fst (min_loop E rec (m # ms) b val a beta) = min val v"
      using True by (simp add: Let_def r p)
    moreover have "bounds_ok a c0 (fold min (map tv ms) (min (tv m) T0)) (min val v)"
      unfolding bounds_ok_def
      by (rule step_min_break [OF cb True Cons.prems(2) Cons.prems(3) le])
    ultimately show ?thesis by simp
  next
    case False
    have eq: "fst (min_loop E rec (m # ms) b val a beta)
        = fst (min_loop E rec ms b (min val v) a (min beta (min val v)))"
      using False by (simp add: Let_def r p)
    have "bounds_ok a c0 (fold min (map tv ms) (min (tv m) T0))
            (fst (min_loop E rec ms b (min val v) a (min beta (min val v))))"
    proof (rule Cons.IH)
      show "\<And>m' a' c'. m' \<in> set ms \<Longrightarrow> a' < c' \<Longrightarrow>
              bounds_ok a' c' (tv m') (fst (rec (push E b m') a' c'))"
        using Cons.prems(1) by simp
      show "min beta (min val v) = min c0 (min val v)"
        using Cons.prems(2) by (simp add: min.assoc [symmetric])
      show "a < min beta (min val v)" using False by (meson not_le)
      show "c0 \<le> min val v \<longrightarrow> min val v \<le> min (tv m) T0"
        by (rule step_min_high [OF cb False Cons.prems(2-5)])
      show "min val v < c0 \<longrightarrow> min (tv m) T0 = min val v"
        by (rule step_min_mid [OF cb False Cons.prems(2-5)])
    qed
    then show ?thesis using eq by simp
  qed
qed

lemma fold_max_set: "fold max xs (s::score) = Max (insert s (set xs))"
  using Max.set_eq_fold [of s xs] by simp

lemma fold_min_set: "fold min xs (s::score) = Min (insert s (set xs))"
  using Min.set_eq_fold [of s xs] by simp

lemma fold_max_cong_set: "set xs = set ys \<Longrightarrow> fold max xs (s::score) = fold max ys s"
  by (simp add: fold_max_set)

lemma fold_min_cong_set: "set xs = set ys \<Longrightarrow> fold min xs (s::score) = fold min ys s"
  by (simp add: fold_min_set)

lemma bounds_ok_refl: "bounds_ok a c t t"
  by (simp add: bounds_ok_def)

lemma NegInf_least: "NegInf \<le> (x::score)" by simp
lemma PosInf_greatest: "(x::score) \<le> PosInf" by (cases x) simp_all

lemma alpha_beta_bounds:
  assumes E: "unmake_ok E"
  shows "a < c \<Longrightarrow> bounds_ok a c (minimax E b d mx) (fst (alpha_beta E q b d a c mx))"
proof (induction d arbitrary: b a c mx)
  case 0
  show ?case by (simp add: bounds_ok_refl)
next
  case (Suc d)
  let ?ms = "get_ordered_moves E q b"
  show ?case
  proof (cases "is_game_over E b \<or> legal_moves E b = []")
    case True
    then show ?thesis by (auto simp: bounds_ok_refl Let_def get_ordered_moves_Nil)
  next
    case False
    then have ne: "?ms \<noteq> []" by (simp add: get_ordered_moves_Nil)
    show ?thesis
    proof (cases mx)
      case True
      let ?tv = "\<lambda>m. minimax E (push E b m) d False"
      have "bounds_ok a c (fold max (map ?tv ?ms) NegInf)
              (fst (max_loop E (\<lambda>b a c. alpha_beta E q b d a c False) ?ms b NegInf a c))"
      proof (rule max_loop_bounds [OF E])
        show "\<And>b' a' c'. snd (alpha_beta E q b' d a' c' False) = b'"
          by (rule alpha_beta_board [OF E])
        show "\<And>m a' c'. m \<in> set ?ms \<Longrightarrow> a' < c' \<Longrightarrow>
            bounds_ok a' c' (?tv m) (fst (alpha_beta E q (push E b m) d a' c' False))"
          by (rule Suc.IH)
        show "a = max a NegInf" by (simp add: max.absorb1)
        show "a < c" by (rule Suc.prems)
        show "NegInf \<le> a \<longrightarrow> NegInf \<le> NegInf" by simp
        show "a < NegInf \<longrightarrow> NegInf = NegInf" by simp
      qed
      moreover have "fold max (map ?tv ?ms) NegInf = fold max (map ?tv (legal_moves E b)) NegInf"
        by (rule fold_max_cong_set) (simp add: set_get_ordered_moves)
      ultimately show ?thesis using False ne True by (simp add: Let_def)
    next
      case mn: False
      let ?tv = "\<lambda>m. minimax E (push E b m) d True"
      have "bounds_ok a c (fold min (map ?tv ?ms) PosInf)
              (fst (min_loop E (\<lambda>b a c. alpha_beta E q b d a c True) ?ms b PosInf a c))"
      proof (rule min_loop_bounds [OF E])
        show "\<And>b' a' c'. snd (alpha_beta E q b' d a' c' True) = b'"
          by (rule alpha_beta_board [OF E])
        show "\<And>m a' c'. m \<in> set ?ms \<Longrightarrow> a' < c' \<Longrightarrow>
            bounds_ok a' c' (?tv m) (fst (alpha_beta E q (push E b m) d a' c' True))"
          by (rule Suc.IH)
        show "c = min c PosInf" by (simp add: min.absorb1 PosInf_greatest)
        show "a < c" by (rule Suc.prems)
        show "c \<le> PosInf \<longrightarrow> PosInf \<le> PosInf" by simp
        show "PosInf < c \<longrightarrow> PosInf = PosInf" by simp
      qed
      moreover have "fold min (map ?tv ?ms) PosInf = fold min (map ?tv (legal_moves E b)) PosInf"
        by (rule fold_min_cong_set) (simp add: set_get_ordered_moves)
      ultimately show ?thesis using False ne mn by (simp add: Let_def)
    qed
  qed
qed

lemma bounds_ok_full: "bounds_ok NegInf PosInf t v \<Longrightarrow> v = t"
  by (cases v; cases t) (auto simp: bounds_ok_def less_score_def)

section \<open>The driver and the coordinator leave the board as they found it\<close>

lemma root_loop_board:
  assumes "unmake_ok E" and "\<And>b' d a c mx. snd (search b' d a c mx) = b'"
  shows "fst (root_loop E search depth ms b row cb cv alpha) = b"
proof (induction ms arbitrary: row cb cv alpha)
  case Nil
  show ?case by simp
next
  case (Cons m ms)
  obtain w where r: "search (push E b m) (depth - Suc 0) alpha PosInf False = (w, push E b m)"
    using assms(2) [of "push E b m" "depth - Suc 0" alpha PosInf False]
    by (cases "search (push E b m) (depth - Suc 0) alpha PosInf False") auto
  have p: "pop E (push E b m) = b" using assms(1) by (simp add: unmake_ok_def)
  show ?case by (simp add: Let_def r p Cons.IH)
qed

lemma depth_loop_board:
  assumes "unmake_ok E" and "\<And>b' d a c mx. snd (search b' d a c mx) = b'"
  shows "snd (snd (snd (depth_loop E search cfg elapsed legal ds b bm bv tree))) = b"
proof (induction ds arbitrary: bm bv tree)
  case Nil
  show ?case by simp
next
  case (Cons d ds)
  have "fst (root_loop E search d legal b Map.empty bm NegInf NegInf) = b"
    by (rule root_loop_board [OF assms])
  then obtain row cb cv where
    r: "root_loop E search d legal b Map.empty bm NegInf NegInf = (b, row, cb, cv)"
    by (cases "root_loop E search d legal b Map.empty bm NegInf NegInf") auto
  show ?case by (simp add: Let_def r Cons.IH)
qed

lemma iterative_deepening_with_board:
  assumes "unmake_ok E" and "\<And>b' d a c mx. snd (search b' d a c mx) = b'"
  shows "snd (snd (iterative_deepening_with search E cfg elapsed q b)) = b"
proof -
  define ds where "ds = [1 ..< Suc (max_depth cfg)]"
  have "snd (snd (snd (depth_loop E search cfg elapsed (get_ordered_moves E q b)
      ds b None NegInf Map.empty))) = b"
    by (rule depth_loop_board [OF assms])
  then obtain bm bv tree where r: "depth_loop E search cfg elapsed (get_ordered_moves E q b)
      ds b None NegInf Map.empty = (bm, bv, tree, b)"
    by (cases "depth_loop E search cfg elapsed (get_ordered_moves E q b)
      ds b None NegInf Map.empty") auto
  show ?thesis
    unfolding iterative_deepening_with_def Let_def ds_def [symmetric]
    by (simp add: r)
qed

lemma compute_best_move_with_board:
  assumes "unmake_ok E" and "\<And>b' d a c mx. snd (search b' d a c mx) = b'"
  shows "snd (snd (snd (compute_best_move_with search E cfg elapsed q b))) = b"
proof -
  have "snd (snd (iterative_deepening_with search E cfg elapsed q b)) = b"
    by (rule iterative_deepening_with_board [OF assms])
  then obtain bm tree where r: "iterative_deepening_with search E cfg elapsed q b = (bm, tree, b)"
    by (cases "iterative_deepening_with search E cfg elapsed q b") auto
  have p: "\<And>m. pop E (push E b m) = b" using assms(1) by (simp add: unmake_ok_def)
  show ?thesis
    by (simp add: compute_best_move_with_def Let_def r p split: option.splits)
qed

section \<open>Runs on the synthetic game tree\<close>

lemma sorted_reverse_const: "(\<And>x. k x = c) \<Longrightarrow> sorted_reverse k xs = xs"
  using sorted_reverse_stable [of k c xs] by simp

lemma toy_ordered [simp]: "get_ordered_moves toy Map.empty b = toy_moves b"
  by (simp add: get_ordered_moves_def Let_def toy_simps get_q_def sorted_reverse_const)

lemma toy_eval [simp]:
  "evaluate_board toy [] = 0"
  "evaluate_board toy [''a''] = 0"
  "evaluate_board toy [''b''] = 0"
  "evaluate_board toy [''s''] = 0"
  "evaluate_board toy [''c'', ''a''] = 500"
  "evaluate_board toy [''d'', ''b''] = 300"
  "evaluate_board toy [''e'', ''b''] = - 10000"
  by (simp_all add: evaluate_board_def toy_simps toy_pawns_def piece_values_def
      center_squares_def WHITE_def BLACK_def)

lemma score_simps [simp]:
  "Fin x < Fin y \<longleftrightarrow> x < y" "NegInf < Fin x" "Fin x < PosInf" "NegInf < PosInf"
  "\<not> Fin x < NegInf" "\<not> PosInf < Fin x" "\<not> PosInf < NegInf" "\<not> x' < NegInf" "\<not> PosInf < x'"
  "max NegInf x' = x'" "max x' NegInf = x'" "min PosInf x' = x'" "min x' PosInf = x'"
  "max (Fin x) (Fin y) = Fin (max x y)" "min (Fin x) (Fin y) = Fin (min x y)"
  "x' \<le> PosInf"
  by (cases x'; auto simp: less_score_def max_def min_def)+

lemma toy_minimax_root: "minimax toy [] (Suc (Suc 0)) True = Fin 500"
  by (simp add: toy_simps toy_moves_def)

lemma toy_ab_root: "alpha_beta toy Map.empty [] (Suc (Suc 0)) NegInf PosInf True = (Fin 500, [])"
  by (simp add: toy_simps toy_moves_def Let_def)

section \<open>Frame property of the search\<close>

text \<open>
  C7. With an engine whose \<^verbatim>\<open>pop\<close> undoes the last \<^verbatim>\<open>push\<close>, the board after a call of the
  search, of the driver or of the decision coordinator is the board before the call: inside
  every loop each \<^verbatim>\<open>push\<close> is followed by the nested call, which returns the board it was
  given, and then by the \<^verbatim>\<open>pop\<close> that reverts that same move.
\<close>

theorem search_restores_board:
  "unmake_ok E \<Longrightarrow>
     snd (alpha_beta E q b d a c mx) = b
     \<and> snd (snd (iterative_deepening E cfg elapsed q b)) = b
     \<and> snd (snd (snd (compute_best_move E cfg elapsed q b))) = b"
  by (simp add: alpha_beta_board iterative_deepening_def compute_best_move_def
      iterative_deepening_with_board compute_best_move_with_board)

theorem search_restores_board_witness:
  "unmake_ok toy
   \<and> snd (alpha_beta toy Map.empty [] (Suc (Suc 0)) NegInf PosInf True) = []
   \<and> snd (snd (snd (compute_best_move toy toy_config (\<lambda>d. 0) Map.empty []))) = []"
proof -
  have "snd (alpha_beta toy Map.empty [] (Suc (Suc 0)) NegInf PosInf True) = []
     \<and> snd (snd (iterative_deepening toy toy_config (\<lambda>d. 0) Map.empty [])) = []
     \<and> snd (snd (snd (compute_best_move toy toy_config (\<lambda>d. 0) Map.empty []))) = []"
    by (rule search_restores_board [OF toy_unmake_ok])
  then show ?thesis using toy_unmake_ok by blast
qed

section \<open>Equivalence of the pruned and the unpruned search\<close>

text \<open>
  C3. On every game tree (every engine whose \<^verbatim>\<open>pop\<close> undoes the last \<^verbatim>\<open>push\<close>), for every
  depth \<open>D\<close> and either player to move, the alpha-beta search started with the window
  \<open>(-infinity, +infinity)\<close> returns the value of the unpruned minimax of depth \<open>D\<close>.
\<close>

theorem alpha_beta_minimax:
  "unmake_ok E \<Longrightarrow> fst (alpha_beta E q b D NegInf PosInf mx) = minimax E b D mx"
proof -
  assume E: "unmake_ok E"
  have "NegInf < PosInf" by (simp add: less_score_def)
  then have "bounds_ok NegInf PosInf (minimax E b D mx) (fst (alpha_beta E q b D NegInf PosInf mx))"
    by (rule alpha_beta_bounds [OF E])
  then show ?thesis by (rule bounds_ok_full)
qed

theorem alpha_beta_minimax_witness:
  "unmake_ok toy
   \<and> fst (alpha_beta toy Map.empty [] (Suc (Suc 0)) NegInf PosInf True) = Fin 500
   \<and> minimax toy [] (Suc (Suc 0)) True = Fin 500"
proof -
  have "fst (alpha_beta toy Map.empty [] (Suc (Suc 0)) NegInf PosInf True)
      = minimax toy [] (Suc (Suc 0)) True"
    by (rule alpha_beta_minimax [OF toy_unmake_ok])
  then have "fst (alpha_beta toy Map.empty [] (Suc (Suc 0)) NegInf PosInf True) = Fin 500"
    by (simp only: toy_minimax_root)
  then show ?thesis by (intro conjI toy_unmake_ok toy_minimax_root)
qed

section \<open>Positions without legal moves\<close>

text \<open>
  C9. On a position with no legal move the driver returns \<open>(None, None)\<close> whatever search
  routine it is given, so without a result of the search, and leaves the board alone; the
  decision coordinator returns no move and the value table it was called with.
\<close>

theorem no_legal_moves:
  "legal_moves E b = [] \<Longrightarrow>
     iterative_deepening_with search E cfg elapsed q b = (None, None, b)
     \<and> iterative_deepening E cfg elapsed q b = (None, None, b)
     \<and> compute_best_move_with search E cfg elapsed q b = (None, None, q, b)
     \<and> compute_best_move E cfg elapsed q b = (None, None, q, b)"
  by (simp add: iterative_deepening_with_def iterative_deepening_def
      compute_best_move_with_def compute_best_move_def get_ordered_moves_Nil Let_def)

theorem no_legal_moves_witness:
  "legal_moves toy [''s''] = []
   \<and> iterative_deepening toy toy_config (\<lambda>d. 0) Map.empty [''s''] = (None, None, [''s''])
   \<and> compute_best_move toy toy_config (\<lambda>d. 0) Map.empty [''s''] = (None, None, Map.empty, [''s''])"
proof -
  have h: "legal_moves toy [''s''] = []" by (simp add: toy_simps toy_moves_def)
  show ?thesis
    using no_legal_moves [OF h, of "alpha_beta toy Map.empty" toy_config "\<lambda>d. 0" Map.empty] h
    by blast
qed

section \<open>The root loop of the driver\<close>

lemma length_root_values [simp]: "length (root_values E search depth ms b alpha) = length ms"
  by (induction ms arbitrary: alpha) (simp_all add: Let_def)

lemma root_values_nth:
  "j < length ms \<Longrightarrow>
     root_values E search depth ms b alpha ! j =
       fst (search (push E b (ms ! j)) (depth - 1)
              (fold max (take j (root_values E search depth ms b alpha)) alpha) PosInf False)"
proof (induction ms arbitrary: alpha j)
  case Nil
  then show ?case by simp
next
  case (Cons m ms)
  show ?case
  proof (cases j)
    case 0
    then show ?thesis by (simp add: Let_def)
  next
    case (Suc j')
    then have "j' < length ms" using Cons.prems by simp
    from Cons.IH [OF this] show ?thesis
      using Suc by (simp add: Let_def max.commute)
  qed
qed

lemma root_loop_result:
  assumes E: "unmake_ok E" and board: "\<And>b' d a c mx. snd (search b' d a c mx) = b'"
  shows "\<exists>cb' cv'.
     root_loop E search depth ms b row cb cv alpha =
       (b, row ++ map_of (rev (zip (map (uci E) ms) (root_values E search depth ms b alpha))), cb', cv')
     \<and> cv' = fold max (root_values E search depth ms b alpha) cv
     \<and> ((\<forall>v \<in> set (root_values E search depth ms b alpha). v \<le> cv) \<longrightarrow> cb' = cb)
     \<and> (\<not> (\<forall>v \<in> set (root_values E search depth ms b alpha). v \<le> cv) \<longrightarrow>
          (\<exists>i < length ms. cb' = Some (ms ! i)
             \<and> root_values E search depth ms b alpha ! i = cv'
             \<and> cv < cv'
             \<and> (\<forall>j < i. root_values E search depth ms b alpha ! j
                          < root_values E search depth ms b alpha ! i)))"
proof (induction ms arbitrary: row cb cv alpha)
  case Nil
  show ?case by simp
next
  case (Cons m ms)
  obtain v where r: "search (push E b m) (depth - Suc 0) alpha PosInf False = (v, push E b m)"
    using board [of "push E b m" "depth - Suc 0" alpha PosInf False]
    by (cases "search (push E b m) (depth - Suc 0) alpha PosInf False") auto
  have p: "pop E (push E b m) = b" using E by (simp add: unmake_ok_def)
  let ?vs = "root_values E search depth ms b (max alpha v)"
  have vals: "root_values E search depth (m # ms) b alpha = v # ?vs"
    by (simp add: Let_def r)
  let ?row = "row(uci E m \<mapsto> v)"
  have roweq: "?row ++ map_of (rev (zip (map (uci E) ms) ?vs))
      = row ++ map_of (rev (zip (map (uci E) (m # ms)) (v # ?vs)))"
    by (simp add: map_add_def fun_eq_iff split: option.splits)
  show ?case
  proof (cases "cv < v")
    case True
    from Cons.IH [of ?row "Some m" v "max alpha v"]
    obtain cb' cv' where
      s: "root_loop E search depth ms b ?row (Some m) v (max alpha v)
            = (b, ?row ++ map_of (rev (zip (map (uci E) ms) ?vs)), cb', cv')"
      and cv': "cv' = fold max ?vs v"
      and same: "(\<forall>x \<in> set ?vs. x \<le> v) \<longrightarrow> cb' = Some m"
      and other: "\<not> (\<forall>x \<in> set ?vs. x \<le> v) \<longrightarrow>
          (\<exists>i < length ms. cb' = Some (ms ! i) \<and> ?vs ! i = cv' \<and> v < cv'
             \<and> (\<forall>j < i. ?vs ! j < ?vs ! i))"
      by blast
    have step: "root_loop E search depth (m # ms) b row cb cv alpha
        = (b, row ++ map_of (rev (zip (map (uci E) (m # ms)) (v # ?vs))), cb', cv')"
      using True by (simp add: Let_def r p s roweq del: map_of.simps zip_Cons_Cons rev.simps list.map)
    have mx: "max v cv = v" using True by (simp add: max.absorb1)
    have cvf: "cv' = fold max (v # ?vs) cv" by (simp add: cv' mx)
    have notall: "\<not> (\<forall>x \<in> set (v # ?vs). x \<le> cv)" using True by auto
    have "\<exists>i < length (m # ms). cb' = Some ((m # ms) ! i) \<and> (v # ?vs) ! i = cv' \<and> cv < cv'
             \<and> (\<forall>j < i. (v # ?vs) ! j < (v # ?vs) ! i)"
    proof (cases "\<forall>x \<in> set ?vs. x \<le> v")
      case all: True
      then have "fold max ?vs v = v"
        by (simp add: fold_max_set) (metis Max_insert2 finite_set insertI1 List.finite_set Max_singleton Max_in empty_iff insert_iff)
      then show ?thesis using same all True cv' by (intro exI [of _ 0]) simp
    next
      case False
      with other obtain i where i: "i < length ms" "cb' = Some (ms ! i)" "?vs ! i = cv'"
        "v < cv'" "\<forall>j < i. ?vs ! j < ?vs ! i" by blast
      have "\<forall>j < Suc i. (v # ?vs) ! j < (v # ?vs) ! Suc i"
        using i by (auto simp: less_Suc_eq_0_disj)
      then show ?thesis using i True by (intro exI [of _ "Suc i"]) auto
    qed
    then show ?thesis unfolding vals using step cvf notall by blast
  next
    case False
    from Cons.IH [of ?row cb cv "max alpha v"]
    obtain cb' cv' where
      s: "root_loop E search depth ms b ?row cb cv (max alpha v)
            = (b, ?row ++ map_of (rev (zip (map (uci E) ms) ?vs)), cb', cv')"
      and cv': "cv' = fold max ?vs cv"
      and same: "(\<forall>x \<in> set ?vs. x \<le> cv) \<longrightarrow> cb' = cb"
      and other: "\<not> (\<forall>x \<in> set ?vs. x \<le> cv) \<longrightarrow>
          (\<exists>i < length ms. cb' = Some (ms ! i) \<and> ?vs ! i = cv' \<and> cv < cv'
             \<and> (\<forall>j < i. ?vs ! j < ?vs ! i))"
      by blast
    have step: "root_loop E search depth (m # ms) b row cb cv alpha
        = (b, row ++ map_of (rev (zip (map (uci E) (m # ms)) (v # ?vs))), cb', cv')"
      using False by (simp add: Let_def r p s roweq del: map_of.simps zip_Cons_Cons rev.simps list.map)
    have vle: "v \<le> cv" using False by simp
    have mx: "max v cv = cv" using vle by (simp add: max.absorb2)
    have cvf: "cv' = fold max (v # ?vs) cv" by (simp add: cv' mx)
    have a1: "(\<forall>x \<in> set (v # ?vs). x \<le> cv) \<longrightarrow> cb' = cb" using same by simp
    have a2: "\<not> (\<forall>x \<in> set (v # ?vs). x \<le> cv) \<longrightarrow>
        (\<exists>i < length (m # ms). cb' = Some ((m # ms) ! i) \<and> (v # ?vs) ! i = cv' \<and> cv < cv'
             \<and> (\<forall>j < i. (v # ?vs) ! j < (v # ?vs) ! i))"
    proof
      assume "\<not> (\<forall>x \<in> set (v # ?vs). x \<le> cv)"
      then have "\<not> (\<forall>x \<in> set ?vs. x \<le> cv)" using vle by simp
      with other obtain i where i: "i < length ms" "cb' = Some (ms ! i)" "?vs ! i = cv'"
        "cv < cv'" "\<forall>j < i. ?vs ! j < ?vs ! i" by blast
      have "v < ?vs ! i" using vle i by simp
      then have "\<forall>j < Suc i. (v # ?vs) ! j < (v # ?vs) ! Suc i"
        using i by (auto simp: less_Suc_eq_0_disj)
      then show "\<exists>i < length (m # ms). cb' = Some ((m # ms) ! i) \<and> (v # ?vs) ! i = cv' \<and> cv < cv'
             \<and> (\<forall>j < i. (v # ?vs) ! j < (v # ?vs) ! i)"
        using i by (intro exI [of _ "Suc i"]) auto
    qed
    show ?thesis unfolding vals using step cvf a1 a2 by blast
  qed
qed

section \<open>The search returns a finite value\<close>

lemma max_loop_gt:
  assumes "\<And>b' a' c'. NegInf < fst (rec b' a' c')"
  shows "ms \<noteq> [] \<or> NegInf < val \<Longrightarrow> NegInf < fst (max_loop E rec ms b val alpha beta)"
proof (induction ms arbitrary: b val alpha)
  case Nil
  then show ?case by simp
next
  case (Cons m ms)
  obtain v b2 where r: "rec (push E b m) alpha beta = (v, b2)"
    by (cases "rec (push E b m) alpha beta")
  have "NegInf < v" using assms [of "push E b m" alpha beta] by (simp add: r)
  then have g: "NegInf < max val v" by (simp add: less_max_iff_disj)
  show ?case using g Cons.IH [of "max val v"] by (simp add: Let_def r)
qed

lemma min_loop_gt:
  assumes "\<And>b' a' c'. NegInf < fst (rec b' a' c')"
  shows "NegInf < val \<Longrightarrow> NegInf < fst (min_loop E rec ms b val alpha beta)"
proof (induction ms arbitrary: b val beta)
  case Nil
  then show ?case by simp
next
  case (Cons m ms)
  obtain v b2 where r: "rec (push E b m) alpha beta = (v, b2)"
    by (cases "rec (push E b m) alpha beta")
  have "NegInf < v" using assms [of "push E b m" alpha beta] by (simp add: r)
  then have g: "NegInf < min val v" using Cons.prems by simp
  show ?case using g Cons.IH [of "min val v"] by (simp add: Let_def r)
qed

lemma max_loop_lt:
  assumes "\<And>b' a' c'. fst (rec b' a' c') < PosInf"
  shows "val < PosInf \<Longrightarrow> fst (max_loop E rec ms b val alpha beta) < PosInf"
proof (induction ms arbitrary: b val alpha)
  case Nil
  then show ?case by simp
next
  case (Cons m ms)
  obtain v b2 where r: "rec (push E b m) alpha beta = (v, b2)"
    by (cases "rec (push E b m) alpha beta")
  have "v < PosInf" using assms [of "push E b m" alpha beta] by (simp add: r)
  then have g: "max val v < PosInf" using Cons.prems by simp
  show ?case using g Cons.IH [of "max val v"] by (simp add: Let_def r)
qed

lemma min_loop_lt:
  assumes "\<And>b' a' c'. fst (rec b' a' c') < PosInf"
  shows "ms \<noteq> [] \<or> val < PosInf \<Longrightarrow> fst (min_loop E rec ms b val alpha beta) < PosInf"
proof (induction ms arbitrary: b val beta)
  case Nil
  then show ?case by simp
next
  case (Cons m ms)
  obtain v b2 where r: "rec (push E b m) alpha beta = (v, b2)"
    by (cases "rec (push E b m) alpha beta")
  have "v < PosInf" using assms [of "push E b m" alpha beta] by (simp add: r)
  then have g: "min val v < PosInf" by (simp add: min_less_iff_disj)
  show ?case using g Cons.IH [of "min val v"] by (simp add: Let_def r)
qed

lemma alpha_beta_finite:
  "NegInf < fst (alpha_beta E q b d a c mx) \<and> fst (alpha_beta E q b d a c mx) < PosInf"
proof (induction d arbitrary: b a c mx)
  case 0
  show ?case by simp
next
  case (Suc d)
  have lo: "\<And>mx' b' a' c'. NegInf < fst (alpha_beta E q b' d a' c' mx')" using Suc.IH by blast
  have hi: "\<And>mx' b' a' c'. fst (alpha_beta E q b' d a' c' mx') < PosInf" using Suc.IH by blast
  show ?case
    by (simp add: Let_def max_loop_gt [OF lo] min_loop_gt [OF lo] max_loop_lt [OF hi]
        min_loop_lt [OF hi])
qed

section \<open>The depth loop of the driver\<close>

lemma fold_update_apply:
  "fold (\<lambda>d t. t(d \<mapsto> f d)) ds t x = (if x \<in> set ds then Some (f x) else t x)"
  by (induction ds arbitrary: t) auto

lemma fold_max_upper: "v \<in> set vs \<Longrightarrow> (v::score) \<le> fold max vs s"
  by (simp add: fold_max_set)

lemma depth_loop_result:
  assumes E: "unmake_ok E" and board: "\<And>b' d a c mx. snd (search b' d a c mx) = b'"
    and gt: "\<And>b' d a c mx. NegInf < fst (search b' d a c mx)"
    and legal: "legal \<noteq> []" and nonnull: "\<forall>m \<in> set legal. move_bool E m"
  shows "\<exists>bm' bv'.
     depth_loop E search cfg elapsed legal ds b bm bv tree =
       (bm', bv',
        fold (\<lambda>d t. t(d \<mapsto> map_of (rev (zip (map (uci E) legal)
                                    (root_values E search d legal b NegInf)))))
          (takeWhile (\<lambda>d. \<not> elapsed d > time_limit cfg) ds) tree,
        b)
     \<and> (takeWhile (\<lambda>d. \<not> elapsed d > time_limit cfg) ds = [] \<longrightarrow> bm' = bm)
     \<and> (takeWhile (\<lambda>d. \<not> elapsed d > time_limit cfg) ds \<noteq> [] \<longrightarrow>
          (\<exists>i < length legal. bm' = Some (legal ! i)
             \<and> (\<forall>j < length legal.
                   root_values E search (last (takeWhile (\<lambda>d. \<not> elapsed d > time_limit cfg) ds)) legal b NegInf ! j
                 \<le> root_values E search (last (takeWhile (\<lambda>d. \<not> elapsed d > time_limit cfg) ds)) legal b NegInf ! i)
             \<and> (\<forall>j < i.
                   root_values E search (last (takeWhile (\<lambda>d. \<not> elapsed d > time_limit cfg) ds)) legal b NegInf ! j
                 < root_values E search (last (takeWhile (\<lambda>d. \<not> elapsed d > time_limit cfg) ds)) legal b NegInf ! i)))"
proof (induction ds arbitrary: bm bv tree)
  case Nil
  show ?case by simp
next
  case (Cons d ds)
  let ?P = "\<lambda>d. \<not> elapsed d > time_limit cfg"
  let ?vs = "root_values E search d legal b NegInf"
  let ?row = "map_of (rev (zip (map (uci E) legal) ?vs))"
  show ?case
  proof (cases "?P d")
    case False
    then show ?thesis by simp
  next
    case True
    obtain m0 ms0 where l: "legal = m0 # ms0" using legal by (cases legal) auto
    have "?vs ! 0 \<in> set ?vs" by (rule nth_mem) (use legal in simp)
    moreover have "NegInf < ?vs ! 0"
      using root_values_nth [of 0 legal E search d b NegInf] gt by (simp add: l)
    ultimately have notall: "\<not> (\<forall>v \<in> set ?vs. v \<le> NegInf)" by (metis not_le)
    have "\<exists>cb' cv'.
        root_loop E search d legal b Map.empty bm NegInf NegInf =
          (b, Map.empty ++ map_of (rev (zip (map (uci E) legal) ?vs)), cb', cv')
        \<and> cv' = fold max ?vs NegInf
        \<and> ((\<forall>v \<in> set ?vs. v \<le> NegInf) \<longrightarrow> cb' = bm)
        \<and> (\<not> (\<forall>v \<in> set ?vs. v \<le> NegInf) \<longrightarrow>
             (\<exists>i < length legal. cb' = Some (legal ! i) \<and> ?vs ! i = cv' \<and> NegInf < cv'
                \<and> (\<forall>j < i. ?vs ! j < ?vs ! i)))"
      by (rule root_loop_result [OF E]) (rule board)
    then obtain cb' cv' where
      r0: "root_loop E search d legal b Map.empty bm NegInf NegInf =
          (b, Map.empty ++ map_of (rev (zip (map (uci E) legal) ?vs)), cb', cv')"
      and cv': "cv' = fold max ?vs NegInf"
      and other: "\<not> (\<forall>v \<in> set ?vs. v \<le> NegInf) \<longrightarrow>
             (\<exists>i < length legal. cb' = Some (legal ! i) \<and> ?vs ! i = cv' \<and> NegInf < cv'
                \<and> (\<forall>j < i. ?vs ! j < ?vs ! i))"
      by blast
    from other notall obtain i where
      i: "i < length legal" "cb' = Some (legal ! i)" "?vs ! i = cv'"
        "\<forall>j < i. ?vs ! j < ?vs ! i"
      by blast
    have r: "root_loop E search d legal b Map.empty bm NegInf NegInf = (b, ?row, cb', cv')"
      using r0 by simp
    have tr: "truthy E cb'" using i nonnull by (simp add: truthy_def)
    have upper: "\<forall>j < length legal. ?vs ! j \<le> ?vs ! i"
      using i(3) cv' by (simp add: fold_max_upper)
    from Cons.IH [of cb' cv' "tree(d \<mapsto> ?row)"]
    obtain bm' bv' where
      s: "depth_loop E search cfg elapsed legal ds b cb' cv' (tree(d \<mapsto> ?row)) =
         (bm', bv',
          fold (\<lambda>d t. t(d \<mapsto> map_of (rev (zip (map (uci E) legal)
                                    (root_values E search d legal b NegInf)))))
            (takeWhile ?P ds) (tree(d \<mapsto> ?row)), b)"
      and e: "takeWhile ?P ds = [] \<longrightarrow> bm' = cb'"
      and n: "takeWhile ?P ds \<noteq> [] \<longrightarrow>
          (\<exists>i < length legal. bm' = Some (legal ! i)
             \<and> (\<forall>j < length legal.
                   root_values E search (last (takeWhile ?P ds)) legal b NegInf ! j
                 \<le> root_values E search (last (takeWhile ?P ds)) legal b NegInf ! i)
             \<and> (\<forall>j < i.
                   root_values E search (last (takeWhile ?P ds)) legal b NegInf ! j
                 < root_values E search (last (takeWhile ?P ds)) legal b NegInf ! i))"
      by blast
    have step: "depth_loop E search cfg elapsed legal (d # ds) b bm bv tree =
        depth_loop E search cfg elapsed legal ds b cb' cv' (tree(d \<mapsto> ?row))"
      using True tr by (simp add: r)
    have tw: "takeWhile ?P (d # ds) = d # takeWhile ?P ds" using True by simp
    show ?thesis
    proof (intro exI [of _ bm'] exI [of _ bv'] conjI)
      show "depth_loop E search cfg elapsed legal (d # ds) b bm bv tree =
         (bm', bv',
          fold (\<lambda>d t. t(d \<mapsto> map_of (rev (zip (map (uci E) legal)
                                    (root_values E search d legal b NegInf)))))
            (takeWhile ?P (d # ds)) tree, b)"
        by (simp only: tw step s fold_Cons o_apply)
      show "takeWhile ?P (d # ds) = [] \<longrightarrow> bm' = bm" by (simp only: tw) simp
      show "takeWhile ?P (d # ds) \<noteq> [] \<longrightarrow>
          (\<exists>i < length legal. bm' = Some (legal ! i)
             \<and> (\<forall>j < length legal.
                   root_values E search (last (takeWhile ?P (d # ds))) legal b NegInf ! j
                 \<le> root_values E search (last (takeWhile ?P (d # ds))) legal b NegInf ! i)
             \<and> (\<forall>j < i.
                   root_values E search (last (takeWhile ?P (d # ds))) legal b NegInf ! j
                 < root_values E search (last (takeWhile ?P (d # ds))) legal b NegInf ! i))"
      proof (cases "takeWhile ?P ds = []")
        case emp: True
        then have "bm' = Some (legal ! i)" using e i by simp
        moreover have "last (takeWhile ?P (d # ds)) = d" by (simp only: tw emp) simp
        ultimately show ?thesis using i upper by auto
      next
        case ne: False
        then have "last (takeWhile ?P (d # ds)) = last (takeWhile ?P ds)"
          by (simp only: tw) simp
        then show ?thesis using n ne by simp
      qed
    qed
  qed
qed

lemma takeWhile_upt_prefix:
  "takeWhile P [1 ..< Suc D] = [1 ..< Suc (length (takeWhile P [1 ..< Suc D]))]"
proof -
  let ?k = "length (takeWhile P [1 ..< Suc D])"
  have k: "?k \<le> D" using length_takeWhile_le [of P "[1 ..< Suc D]"] by (simp del: upt_Suc)
  have "takeWhile P [1 ..< Suc D] = take ?k [1 ..< Suc D]"
    by (rule takeWhile_eq_take)
  also have "\<dots> = [1 ..< Suc ?k]" using k by (simp add: take_upt del: upt_Suc)
  finally show ?thesis .
qed

end
